theory Spec2Isabelle
  imports Complex_Main "HOL-Library.AList" "HOL-Library.Sublist"
begin

section \<open>Values, errors and dictionaries\<close>

text \<open>
  The module \<^verbatim>\<open>creme/stream/csv.py\<close> reads rows of strings, turns each accepted row into
  a Python \<^verbatim>\<open>dict\<close> and rewrites the values of that dict. A value is a raw string, the
  result of a converter or of a date parse (an object of the parameter type), or
  \<^verbatim>\<open>None\<close>.
\<close>

datatype 'a pyval = PyStr string | PyObj 'a | PyNone

text \<open>
  Every \<^verbatim>\<open>raise\<close> of the module and of the callables it is given is a value of this
  type. \<^verbatim>\<open>StopIteration\<close> is what the iterator protocol raises at the end of a sequence.
\<close>

datatype error = StopIteration | KeyError string | TypeError | ValueError string

text \<open>
  A Python \<^verbatim>\<open>dict\<close> keeps its keys in insertion order and holds each key once: an
  association list, where \<^verbatim>\<open>d[k] = v\<close> overwrites in place or appends
  (\<^const>\<open>AList.update\<close>), \<^verbatim>\<open>d[k]\<close> and \<^verbatim>\<open>del d[k]\<close> raise \<^verbatim>\<open>KeyError\<close> on a missing key and
  \<^verbatim>\<open>d.pop(k, default)\<close> does not.
\<close>

type_synonym 'a pydict = "(string \<times> 'a pyval) list"

definition getitem :: "'a pydict \<Rightarrow> string \<Rightarrow> error + 'a pyval" where
  "getitem d k = (case map_of d k of None \<Rightarrow> Inl (KeyError k) | Some v \<Rightarrow> Inr v)"

definition setitem :: "'a pydict \<Rightarrow> string \<Rightarrow> 'a pyval \<Rightarrow> 'a pydict" where
  "setitem d k v = AList.update k v d"

definition delitem :: "'a pydict \<Rightarrow> string \<Rightarrow> error + 'a pydict" where
  "delitem d k = (case map_of d k of None \<Rightarrow> Inl (KeyError k) | Some _ \<Rightarrow> Inr (AList.delete k d))"

definition pop :: "'a pydict \<Rightarrow> string \<Rightarrow> 'a pyval \<Rightarrow> 'a pydict \<times> 'a pyval" where
  "pop d k dflt = (case map_of d k of None \<Rightarrow> (d, dflt) | Some v \<Rightarrow> (AList.delete k d, v))"

text \<open>\<^verbatim>\<open>dict(pairs)\<close> inserts the pairs from left to right, so a repeated key keeps its last value.\<close>

definition dict :: "(string \<times> 'a pyval) list \<Rightarrow> 'a pydict" where
  "dict ps = fold (\<lambda>(k, v) d. setitem d k v) ps []"

section \<open>The sampling reader\<close>

text \<open>
  \<^verbatim>\<open>DictReader\<close> extends \<^verbatim>\<open>csv.DictReader\<close> of the standard library. Its state is the
  underlying \<^verbatim>\<open>csv.reader\<close> (the rows not yet read, each a list of strings, and the
  reader's line counter), the cached header \<^verbatim>\<open>_fieldnames\<close>, \<^verbatim>\<open>line_num\<close>, the sampling
  fraction and the random generator. The generator is the sequence of numbers its
  \<^verbatim>\<open>random()\<close> method returns together with the number of calls made so far.
  The reader is built without the \<^verbatim>\<open>fieldnames\<close> keyword, so the header starts unset.
\<close>

record DictReader =
  fraction :: real
  rng :: "nat \<Rightarrow> real"
  rng_calls :: nat
  reader :: "string list list"
  reader_line_num :: nat
  fieldnames_cache :: "string list option"
  line_num :: nat

definition DictReader_init :: "real \<Rightarrow> (nat \<Rightarrow> real) \<Rightarrow> string list list \<Rightarrow> DictReader" where
  "DictReader_init f g rows =
     \<lparr>fraction = f, rng = g, rng_calls = 0, reader = rows, reader_line_num = 0,
      fieldnames_cache = None, line_num = 0\<rparr>"

text \<open>\<^verbatim>\<open>next(self.reader)\<close>: the next row, or \<^verbatim>\<open>StopIteration\<close> when none is left.\<close>

definition next_reader :: "DictReader \<Rightarrow> error + (string list \<times> DictReader)" where
  "next_reader rd =
     (case reader rd of
        [] \<Rightarrow> Inl StopIteration
      | r # rs \<Rightarrow> Inr (r, rd\<lparr>reader := rs, reader_line_num := Suc (reader_line_num rd)\<rparr>))"

text \<open>
  The property \<^verbatim>\<open>fieldnames\<close> of \<^verbatim>\<open>csv.DictReader\<close>: when the header is unset it reads one
  row as the header, swallowing \<^verbatim>\<open>StopIteration\<close>; it then copies the reader's line
  counter to \<^verbatim>\<open>line_num\<close> and returns the header, which may still be unset.
\<close>

definition fieldnames :: "DictReader \<Rightarrow> string list option \<times> DictReader" where
  "fieldnames rd =
     (let rd1 = (if fieldnames_cache rd = None
                 then (case next_reader rd of
                         Inl _ \<Rightarrow> rd
                       | Inr (h, rd') \<Rightarrow> rd'\<lparr>fieldnames_cache := Some h\<rparr>)
                 else rd);
          rd2 = rd1\<lparr>line_num := reader_line_num rd1\<rparr>
      in (fieldnames_cache rd2, rd2))"

text \<open>\<^verbatim>\<open>self.rng.random()\<close>: the next number of the generator.\<close>

definition random :: "DictReader \<Rightarrow> real \<times> DictReader" where
  "random rd = (rng rd (rng_calls rd), rd\<lparr>rng_calls := Suc (rng_calls rd)\<rparr>)"

text \<open>
  The loop \<^verbatim>\<open>while self.rng.random() > self.fraction: row = next(self.reader)\<close>, entered
  with the candidate row. Each round that does not leave the loop reads a row, so the
  number of rows left decreases.
\<close>

function skip_loop :: "string list \<Rightarrow> DictReader \<Rightarrow> (error + string list) \<times> DictReader" where
  "skip_loop row rd =
     (case random rd of
        (u, rd1) \<Rightarrow>
          if u > fraction rd1
          then (case next_reader rd1 of
                  Inl e \<Rightarrow> (Inl e, rd1)
                | Inr (row', rd2) \<Rightarrow> skip_loop row' rd2)
          else (Inr row, rd1))"
  by pat_completeness auto
termination
  by (relation "measure (\<lambda>(row, rd). length (reader rd))")
     (auto simp: random_def next_reader_def split: list.splits)

text \<open>
  \<^verbatim>\<open>DictReader.__next__\<close>. \<^verbatim>\<open>zip\<close> stops at the shorter of the header and the row.
  \<^verbatim>\<open>zip(None, row)\<close> raises \<^verbatim>\<open>TypeError\<close>.
\<close>

definition DictReader_next :: "DictReader \<Rightarrow> (error + 'a pydict) \<times> DictReader" where
  "DictReader_next rd =
     (let rd1 = (if line_num rd = 0 then snd (fieldnames rd) else rd)
      in case next_reader rd1 of
           Inl e \<Rightarrow> (Inl e, rd1)
         | Inr (row, rd2) \<Rightarrow>
             (case (if fraction rd2 < 1 then skip_loop row rd2 else (Inr row, rd2)) of
                (Inl e, rd3) \<Rightarrow> (Inl e, rd3)
              | (Inr row', rd3) \<Rightarrow>
                  (case fieldnames rd3 of
                     (None, rd4) \<Rightarrow> (Inl TypeError, rd4)
                   | (Some names, rd4) \<Rightarrow> (Inr (dict (zip names (map PyStr row'))), rd4))))"

section \<open>The transform pipeline\<close>

text \<open>
  The arguments of \<^verbatim>\<open>iter_csv\<close>. \<^verbatim>\<open>converters\<close> and \<^verbatim>\<open>parse_dates\<close> are dicts, iterated
  with \<^verbatim>\<open>items()\<close>: they are given as the list of their items. A converter is any callable;
  it returns a value or raises.
\<close>

record 'a params =
  p_target_name :: "string option"
  p_converters :: "(string \<times> ('a pyval \<Rightarrow> error + 'a pyval)) list option"
  p_parse_dates :: "(string \<times> string) list option"
  p_drop :: "string list option"
  p_fraction :: real
  p_compression :: string
  p_seed :: "int option"
  p_field_size_limit :: "int option"

text \<open>
  What the module calls and does not define: \<^verbatim>\<open>datetime.strptime\<close> on a string and a format,
  the number sequence of \<^verbatim>\<open>random.Random(seed)\<close> for an integer seed, and
  \<^verbatim>\<open>utils.open_filepath\<close>, which opens a path and gives the rows the \<^verbatim>\<open>csv.reader\<close> will
  produce, or raises.
\<close>

record 'a library =
  strptime :: "string \<Rightarrow> string \<Rightarrow> error + 'a pyval"
  seeded_random :: "int \<Rightarrow> nat \<Rightarrow> real"
  open_filepath :: "string \<Rightarrow> string \<Rightarrow> error + string list list"

text \<open>
  The state of the process a session starts in: the field-size limit of the \<^verbatim>\<open>csv\<close> module
  and the number sequence a generator seeded from the operating system would return.
\<close>

record process_state =
  csv_field_size_limit :: int
  os_random :: "nat \<Rightarrow> real"

text \<open>\<^verbatim>\<open>random.Random(seed)\<close>: without a seed the generator is seeded by the operating system.\<close>

definition random_Random :: "'a library \<Rightarrow> process_state \<Rightarrow> int option \<Rightarrow> nat \<Rightarrow> real" where
  "random_Random lib st sd = (case sd of None \<Rightarrow> os_random st | Some s \<Rightarrow> seeded_random lib s)"

text \<open>\<^verbatim>\<open>for i in drop: del x[i]\<close>\<close>

fun drop_fields :: "string list \<Rightarrow> 'a pydict \<Rightarrow> error + 'a pydict" where
  "drop_fields [] x = Inr x"
| "drop_fields (i # ns) x =
     (case delitem x i of Inl e \<Rightarrow> Inl e | Inr x' \<Rightarrow> drop_fields ns x')"

text \<open>\<^verbatim>\<open>for i, t in converters.items(): x[i] = t(x[i])\<close>\<close>

fun convert_fields ::
  "(string \<times> ('a pyval \<Rightarrow> error + 'a pyval)) list \<Rightarrow> 'a pydict \<Rightarrow> error + 'a pydict" where
  "convert_fields [] x = Inr x"
| "convert_fields ((i, t) # cs) x =
     (case getitem x i of
        Inl e \<Rightarrow> Inl e
      | Inr v \<Rightarrow> (case t v of Inl e \<Rightarrow> Inl e | Inr w \<Rightarrow> convert_fields cs (setitem x i w)))"

text \<open>\<^verbatim>\<open>dt.datetime.strptime(v, fmt)\<close> raises \<^verbatim>\<open>TypeError\<close> when \<^verbatim>\<open>v\<close> is not a string.\<close>

definition datetime_strptime :: "'a library \<Rightarrow> 'a pyval \<Rightarrow> string \<Rightarrow> error + 'a pyval" where
  "datetime_strptime lib v fmt = (case v of PyStr s \<Rightarrow> strptime lib s fmt | _ \<Rightarrow> Inl TypeError)"

text \<open>\<^verbatim>\<open>for i, fmt in parse_dates.items(): x[i] = dt.datetime.strptime(x[i], fmt)\<close>\<close>

fun parse_date_fields ::
  "'a library \<Rightarrow> (string \<times> string) list \<Rightarrow> 'a pydict \<Rightarrow> error + 'a pydict" where
  "parse_date_fields lib [] x = Inr x"
| "parse_date_fields lib ((i, fmt) # ps) x =
     (case getitem x i of
        Inl e \<Rightarrow> Inl e
      | Inr v \<Rightarrow> (case datetime_strptime lib v fmt of
                   Inl e \<Rightarrow> Inl e
                 | Inr w \<Rightarrow> parse_date_fields lib ps (setitem x i w)))"

text \<open>The four stages of the loop body. \<^verbatim>\<open>if drop:\<close> is false for \<^verbatim>\<open>None\<close> and for an empty list.\<close>

definition drop_stage :: "'a params \<Rightarrow> 'a pydict \<Rightarrow> error + 'a pydict" where
  "drop_stage p x =
     (case p_drop p of None \<Rightarrow> Inr x | Some ns \<Rightarrow> if ns = [] then Inr x else drop_fields ns x)"

definition convert_stage :: "'a params \<Rightarrow> 'a pydict \<Rightarrow> error + 'a pydict" where
  "convert_stage p x = (case p_converters p of None \<Rightarrow> Inr x | Some cs \<Rightarrow> convert_fields cs x)"

definition parse_stage :: "'a library \<Rightarrow> 'a params \<Rightarrow> 'a pydict \<Rightarrow> error + 'a pydict" where
  "parse_stage lib p x =
     (case p_parse_dates p of None \<Rightarrow> Inr x | Some ps \<Rightarrow> parse_date_fields lib ps x)"

text \<open>
  \<^verbatim>\<open>y = x.pop(target_name, None)\<close>. The keys of \<^verbatim>\<open>x\<close> are strings, so the key \<^verbatim>\<open>None\<close> of an
  unset \<^verbatim>\<open>target_name\<close> is never found.
\<close>

definition split_stage :: "'a params \<Rightarrow> 'a pydict \<Rightarrow> 'a pydict \<times> 'a pyval" where
  "split_stage p x = (case p_target_name p of None \<Rightarrow> (x, PyNone) | Some t \<Rightarrow> pop x t PyNone)"

text \<open>The body of the \<^verbatim>\<open>for\<close> loop of \<^verbatim>\<open>iter_csv\<close>, up to the pair it yields.\<close>

definition loop_body ::
  "'a library \<Rightarrow> 'a params \<Rightarrow> 'a pydict \<Rightarrow> error + ('a pydict \<times> 'a pyval)" where
  "loop_body lib p x =
     (case drop_stage p x of
        Inl e \<Rightarrow> Inl e
      | Inr x1 \<Rightarrow>
          (case convert_stage p x1 of
             Inl e \<Rightarrow> Inl e
           | Inr x2 \<Rightarrow>
               (case parse_stage lib p x2 of
                  Inl e \<Rightarrow> Inl e
                | Inr x3 \<Rightarrow> Inr (split_stage p x3))))"

section \<open>The session\<close>

datatype outcome = Exhausted | Raised error

text \<open>A pull of the reader that returns a record has consumed at least one row.\<close>

declare skip_loop.simps [simp del]

lemma skip_loop_accept:
  "\<not> rng rd (rng_calls rd) > fraction rd \<Longrightarrow>
   skip_loop row rd = (Inr row, rd\<lparr>rng_calls := Suc (rng_calls rd)\<rparr>)"
  by (subst skip_loop.simps) (simp add: random_def)

lemma skip_loop_exhausted:
  "rng rd (rng_calls rd) > fraction rd \<Longrightarrow> reader rd = [] \<Longrightarrow>
   skip_loop row rd = (Inl StopIteration, rd\<lparr>rng_calls := Suc (rng_calls rd)\<rparr>)"
  by (subst skip_loop.simps) (simp add: random_def next_reader_def)

lemma skip_loop_skip:
  "rng rd (rng_calls rd) > fraction rd \<Longrightarrow> reader rd = r # rs \<Longrightarrow>
   skip_loop row rd =
     skip_loop r (rd\<lparr>rng_calls := Suc (rng_calls rd), reader := rs,
                     reader_line_num := Suc (reader_line_num rd)\<rparr>)"
  by (subst skip_loop.simps) (simp add: random_def next_reader_def)

lemma skip_loop_reader_le:
  "skip_loop row rd = (res, rd') \<Longrightarrow> length (reader rd') \<le> length (reader rd)"
proof (induction "reader rd" arbitrary: row rd)
  case Nil
  then show ?case
    by (cases "rng rd (rng_calls rd) > fraction rd")
       (auto simp: skip_loop_accept skip_loop_exhausted)
next
  case (Cons r rs)
  show ?case
  proof (cases "rng rd (rng_calls rd) > fraction rd")
    case False
    with Cons.prems show ?thesis by (auto simp: skip_loop_accept)
  next
    case True
    let ?rd2 = "rd\<lparr>rng_calls := Suc (rng_calls rd), reader := rs,
                    reader_line_num := Suc (reader_line_num rd)\<rparr>"
    have "skip_loop r ?rd2 = (res, rd')"
      using Cons.prems True Cons.hyps(2) by (simp add: skip_loop_skip [of rd r rs])
    then have "length (reader rd') \<le> length (reader ?rd2)"
      by (intro Cons.hyps(1)) simp_all
    then show ?thesis using Cons.hyps(2) [symmetric] by simp
  qed
qed

lemma next_reader_less:
  "next_reader rd = Inr (row, rd') \<Longrightarrow> length (reader rd') < length (reader rd)"
  by (auto simp: next_reader_def split: list.splits)

lemma fieldnames_reader_le:
  "fieldnames rd = (h, rd') \<Longrightarrow> length (reader rd') \<le> length (reader rd)"
  by (auto simp: fieldnames_def Let_def next_reader_def split: if_splits list.splits)

lemma DictReader_next_reader_less:
  assumes "DictReader_next rd = (Inr x, rd')"
  shows "length (reader rd') < length (reader rd)"
proof -
  define rd1 where "rd1 = (if line_num rd = 0 then snd (fieldnames rd) else rd)"
  have l1: "length (reader rd1) \<le> length (reader rd)"
    using fieldnames_reader_le [of rd "fst (fieldnames rd)" "snd (fieldnames rd)"]
    by (simp add: rd1_def)
  have nx: "DictReader_next rd =
      (case next_reader rd1 of
           Inl e \<Rightarrow> (Inl e, rd1)
         | Inr (row, rd2) \<Rightarrow>
             (case (if fraction rd2 < 1 then skip_loop row rd2 else (Inr row, rd2)) of
                (Inl e, rd3) \<Rightarrow> (Inl e, rd3)
              | (Inr row', rd3) \<Rightarrow>
                  (case fieldnames rd3 of
                     (None, rd4) \<Rightarrow> (Inl TypeError, rd4)
                   | (Some names, rd4) \<Rightarrow> (Inr (dict (zip names (map PyStr row'))), rd4))))"
    unfolding DictReader_next_def Let_def rd1_def ..
  from assms obtain row rd2 where r2: "next_reader rd1 = Inr (row, rd2)"
    unfolding nx by (cases "next_reader rd1") auto
  have l2: "length (reader rd2) < length (reader rd1)"
    using r2 by (rule next_reader_less)
  obtain res rd3 where
    r3: "(if fraction rd2 < 1 then skip_loop row rd2 else (Inr row, rd2)) = (res, rd3)"
    by (cases "if fraction rd2 < 1 then skip_loop row rd2 else (Inr row, rd2)") auto
  have l3: "length (reader rd3) \<le> length (reader rd2)"
    using r3 skip_loop_reader_le [of row rd2 res rd3] by (auto split: if_splits)
  obtain h rd4 where r4: "fieldnames rd3 = (h, rd4)"
    by (cases "fieldnames rd3") auto
  have l4: "length (reader rd4) \<le> length (reader rd3)"
    using r4 by (rule fieldnames_reader_le)
  have "rd' = rd4"
    using assms r2 r3 r4 unfolding nx by (cases res; cases h) auto
  with l1 l2 l3 l4 show ?thesis by simp
qed

text \<open>
  The \<^verbatim>\<open>for\<close> loop of \<^verbatim>\<open>iter_csv\<close>, run until it ends: the pairs yielded in order, how the loop
  ended, and the reader it leaves. \<^verbatim>\<open>StopIteration\<close> from the reader ends the loop; any
  other exception of the reader or of the loop body leaves the generator at once.
\<close>

function iter_loop ::
  "'a library \<Rightarrow> 'a params \<Rightarrow> DictReader \<Rightarrow> ('a pydict \<times> 'a pyval) list \<times> outcome \<times> DictReader" where
  "iter_loop lib p rd =
     (case DictReader_next rd of
        (Inl e, rd') \<Rightarrow> ([], if e = StopIteration then Exhausted else Raised e, rd')
      | (Inr x, rd') \<Rightarrow>
          (case loop_body lib p x of
             Inl e \<Rightarrow> ([], Raised e, rd')
           | Inr xy \<Rightarrow> (case iter_loop lib p rd' of (ys, out, rd'') \<Rightarrow> (xy # ys, out, rd''))))"
  by pat_completeness auto
termination
proof (relation "measure (\<lambda>(lib, p, rd). length (reader rd))")
  show "wf (measure (\<lambda>(lib, p, rd). length (reader rd)))" by simp
next
  fix lib :: "'a library" and p :: "'a params" and rd x rd' and b :: "'a pydict" and xy
  assume "(x, rd') = DictReader_next rd" "x = Inr b"
  then have "DictReader_next rd = (Inr b, rd')" by simp
  then have "length (reader rd') < length (reader rd)"
    by (rule DictReader_next_reader_less)
  then show "((lib, p, rd'), (lib, p, rd)) \<in> measure (\<lambda>(lib, p, rd). length (reader rd))"
    by simp
qed

declare iter_loop.simps [simp del]

text \<open>
  What the caller gets from a session that it runs to its end, and what the session leaves
  behind: whether \<^verbatim>\<open>close()\<close> was called on the stream, the field-size limit of the \<^verbatim>\<open>csv\<close>
  module, and the values the session passed to \<^verbatim>\<open>csv.field_size_limit\<close>, in order.
\<close>

record 'a session =
  yielded :: "('a pydict \<times> 'a pyval) list"
  outcome :: outcome
  stream_closed :: bool
  limit_after :: int
  limit_sets :: "int list"

datatype input = Filepath string | Buffer "string list list"

definition iter_csv :: "'a library \<Rightarrow> 'a params \<Rightarrow> input \<Rightarrow> process_state \<Rightarrow> 'a session" where
  "iter_csv lib p src st =
     (let limit = csv_field_size_limit st;
          lim1 = (case p_field_size_limit p of None \<Rightarrow> limit | Some l \<Rightarrow> l);
          sets1 = (case p_field_size_limit p of None \<Rightarrow> [] | Some l \<Rightarrow> [l])
      in case (case src of
                 Buffer rows \<Rightarrow> Inr rows
               | Filepath path \<Rightarrow> open_filepath lib path (p_compression p)) of
           Inl e \<Rightarrow>
             \<lparr>yielded = [], outcome = Raised e, stream_closed = False,
              limit_after = lim1, limit_sets = sets1\<rparr>
         | Inr rows \<Rightarrow>
             (case iter_loop lib p
                     (DictReader_init (p_fraction p) (random_Random lib st (p_seed p)) rows) of
                (ys, Exhausted, rd) \<Rightarrow>
                  \<lparr>yielded = ys, outcome = Exhausted, stream_closed = True,
                   limit_after = limit, limit_sets = sets1 @ [limit]\<rparr>
              | (ys, Raised e, rd) \<Rightarrow>
                  \<lparr>yielded = ys, outcome = Raised e, stream_closed = False,
                   limit_after = lim1, limit_sets = sets1\<rparr>))"

section \<open>Example inputs\<close>

text \<open>
  A library whose date parser knows one year, whose seeded generator alternates between
  \<open>0.9\<close> and \<open>0.1\<close>, and whose file system holds no file; the default arguments of
  \<^verbatim>\<open>iter_csv\<close>; a process with the default field-size limit of the \<^verbatim>\<open>csv\<close> module; and the
  first rows of the file of the docstring.
\<close>

definition ex_lib :: "unit library" where
  "ex_lib = \<lparr>strptime = (\<lambda>s fmt. if fmt = ''%Y'' \<and> s = ''2016'' then Inr (PyObj ())
                                    else Inl (ValueError s)),
             seeded_random = (\<lambda>s n. if even n then 9 / 10 else 1 / 10),
             open_filepath = (\<lambda>path c. Inl (ValueError path))\<rparr>"

definition ex_params :: "unit params" where
  "ex_params = \<lparr>p_target_name = None, p_converters = None, p_parse_dates = None,
                p_drop = None, p_fraction = 1, p_compression = ''infer'', p_seed = None,
                p_field_size_limit = None\<rparr>"

definition ex_state :: process_state where
  "ex_state = \<lparr>csv_field_size_limit = 131072, os_random = (\<lambda>n. 0)\<rparr>"

definition tv_shows :: "string list list" where
  "tv_shows = [[''name'', ''year'', ''rating''],
               [''Planet Earth II'', ''2016'', ''9.5''],
               [''Planet Earth'', ''2006'', ''9.4'']]"

text \<open>A session that drops a field the file does not have, under a field-size limit of 5.\<close>

definition aborted_session :: "unit session" where
  "aborted_session =
     iter_csv ex_lib (ex_params\<lparr>p_drop := Some [''b''], p_field_size_limit := Some 5\<rparr>)
       (Buffer [[''a''], [''1'']]) ex_state"

section \<open>Evaluation\<close>

lemmas eval_defs = iter_csv_def iter_loop.simps DictReader_next_def DictReader_init_def
  fieldnames_def next_reader_def random_def random_Random_def loop_body_def drop_stage_def
  convert_stage_def parse_stage_def split_stage_def dict_def setitem_def getitem_def
  delitem_def pop_def datetime_strptime_def Let_def ex_lib_def ex_params_def ex_state_def
  skip_loop.simps

lemma tv_shows_session:
  "iter_csv ex_lib ex_params (Buffer tv_shows) ex_state =
    \<lparr>yielded = [([(''name'', PyStr ''Planet Earth II''), (''year'', PyStr ''2016''),
                  (''rating'', PyStr ''9.5'')], PyNone),
                ([(''name'', PyStr ''Planet Earth''), (''year'', PyStr ''2006''),
                  (''rating'', PyStr ''9.4'')], PyNone)],
     outcome = Exhausted, stream_closed = True,
     limit_after = 131072, limit_sets = [131072]\<rparr>"
  by (simp add: eval_defs tv_shows_def)

lemma aborted_session_eq:
  "aborted_session =
    \<lparr>yielded = [], outcome = Raised (KeyError ''b''), stream_closed = False,
     limit_after = 5, limit_sets = [5]\<rparr>"
  by (simp add: aborted_session_def eval_defs)

section \<open>The session and the process-wide limit\<close>

text \<open>
  A session ends in one of three ways: the path could not be opened, the loop ran to
  exhaustion, or an exception left the loop. Only the second reaches the two statements after
  the loop.
\<close>

lemma iter_csv_cases:
  obtains (open_failed) path e where "src = Filepath path"
      "open_filepath lib path (p_compression p) = Inl e"
      "iter_csv lib p src st =
         \<lparr>yielded = [], outcome = Raised e, stream_closed = False,
          limit_after = (case p_field_size_limit p of None \<Rightarrow> csv_field_size_limit st | Some l \<Rightarrow> l),
          limit_sets = (case p_field_size_limit p of None \<Rightarrow> [] | Some l \<Rightarrow> [l])\<rparr>"
  | (exhausted) ys where
      "iter_csv lib p src st =
         \<lparr>yielded = ys, outcome = Exhausted, stream_closed = True,
          limit_after = csv_field_size_limit st,
          limit_sets = (case p_field_size_limit p of None \<Rightarrow> [] | Some l \<Rightarrow> [l]) @ [csv_field_size_limit st]\<rparr>"
  | (raised) ys e where
      "iter_csv lib p src st =
         \<lparr>yielded = ys, outcome = Raised e, stream_closed = False,
          limit_after = (case p_field_size_limit p of None \<Rightarrow> csv_field_size_limit st | Some l \<Rightarrow> l),
          limit_sets = (case p_field_size_limit p of None \<Rightarrow> [] | Some l \<Rightarrow> [l])\<rparr>"
proof -
  define opened where "opened = (case src of Buffer rows \<Rightarrow> Inr rows
               | Filepath path \<Rightarrow> open_filepath lib path (p_compression p))"
  show thesis
  proof (cases opened)
    case (Inl e)
    then obtain path where "src = Filepath path" "open_filepath lib path (p_compression p) = Inl e"
      by (auto simp: opened_def split: input.splits)
    moreover have "iter_csv lib p src st =
         \<lparr>yielded = [], outcome = Raised e, stream_closed = False,
          limit_after = (case p_field_size_limit p of None \<Rightarrow> csv_field_size_limit st | Some l \<Rightarrow> l),
          limit_sets = (case p_field_size_limit p of None \<Rightarrow> [] | Some l \<Rightarrow> [l])\<rparr>"
      using Inl by (simp add: iter_csv_def Let_def opened_def)
    ultimately show thesis by (rule open_failed)
  next
    case (Inr rows)
    obtain ys out rd where r: "iter_loop lib p
        (DictReader_init (p_fraction p) (random_Random lib st (p_seed p)) rows) = (ys, out, rd)"
      by (rule prod_cases3)
    show thesis
    proof (cases out)
      case Exhausted
      with Inr r show thesis
        by (intro exhausted [of ys]) (simp add: iter_csv_def Let_def opened_def)
    next
      case (Raised e)
      with Inr r show thesis
        by (intro raised [of ys e]) (simp add: iter_csv_def Let_def opened_def)
    qed
  qed
qed

text \<open>
  C10: when the \<^verbatim>\<open>field_size_limit\<close> argument is \<^verbatim>\<open>None\<close>, the session never changes the
  process-wide limit: its value after the session is its value before, and the only value the
  session ever passes to \<^verbatim>\<open>csv.field_size_limit\<close> is that same value, written back once on
  normal exhaustion.
\<close>

theorem C10_limit_unchanged:
  "p_field_size_limit p = None \<Longrightarrow>
   limit_after (iter_csv lib p src st) = csv_field_size_limit st \<and>
   limit_sets (iter_csv lib p src st) =
     (if outcome (iter_csv lib p src st) = Exhausted then [csv_field_size_limit st] else [])"
  by (cases rule: iter_csv_cases [of src lib p st]) simp_all

theorem C10_limit_unchanged_witness:
  "p_field_size_limit ex_params = None \<and>
   limit_after (iter_csv ex_lib ex_params (Buffer tv_shows) ex_state) = 131072 \<and>
   limit_sets (iter_csv ex_lib ex_params (Buffer tv_shows) ex_state) = [131072]"
proof -
  have h: "p_field_size_limit ex_params = None" by (simp add: ex_params_def)
  have o: "outcome (iter_csv ex_lib ex_params (Buffer tv_shows) ex_state) = Exhausted"
    by (simp add: tv_shows_session)
  show ?thesis using h o C10_limit_unchanged [OF h, of ex_lib "Buffer tv_shows" ex_state]
    by (simp add: ex_state_def)
qed

text \<open>
  C6, as stated: the stream is closed and the limit restored at the end of every session, also
  when the pipeline aborts with an exception. The session \<^const>\<open>aborted_session\<close> aborts with a
  \<^verbatim>\<open>KeyError\<close>; its stream is not closed and the limit stays at 5 where it was 131072.
\<close>

theorem C6_counterexample:
  "outcome aborted_session = Raised (KeyError ''b'') \<and>
   \<not> stream_closed aborted_session \<and>
   limit_after aborted_session = 5 \<and>
   csv_field_size_limit ex_state = 131072"
  by (simp add: aborted_session_eq ex_state_def)

text \<open>
  C6, amended: the stream is closed exactly when the session ends by exhaustion, and then the
  limit is back at its prior value; a session that ends with an exception leaves the stream
  open and the limit at the value it installed (the prior value when \<^verbatim>\<open>field_size_limit\<close> is
  \<^verbatim>\<open>None\<close>).
\<close>

theorem C6_cleanup_on_exhaustion_only:
  "stream_closed (iter_csv lib p src st) = (outcome (iter_csv lib p src st) = Exhausted) \<and>
   limit_after (iter_csv lib p src st) =
     (if outcome (iter_csv lib p src st) = Exhausted then csv_field_size_limit st
      else (case p_field_size_limit p of None \<Rightarrow> csv_field_size_limit st | Some l \<Rightarrow> l))"
  by (cases rule: iter_csv_cases [of src lib p st]) simp_all

section \<open>Dictionaries and the transform stages\<close>

text \<open>Subscription, assignment and deletion, read through \<^const>\<open>map_of\<close>.\<close>

lemma getitem_Inr [simp]: "getitem d k = Inr v \<longleftrightarrow> map_of d k = Some v"
  by (simp add: getitem_def split: option.splits)

lemma getitem_Inl [simp]: "getitem d k = Inl e \<longleftrightarrow> map_of d k = None \<and> e = KeyError k"
  by (auto simp: getitem_def split: option.splits)

lemma map_of_setitem [simp]: "map_of (setitem d k v) = (map_of d)(k \<mapsto> v)"
  by (simp add: setitem_def update_conv')

lemma delitem_Inr [simp]:
  "delitem d k = Inr d' \<longleftrightarrow> map_of d k \<noteq> None \<and> d' = AList.delete k d"
  by (auto simp: delitem_def split: option.splits)

lemma delitem_Inl [simp]: "delitem d k = Inl e \<longleftrightarrow> map_of d k = None \<and> e = KeyError k"
  by (auto simp: delitem_def split: option.splits)

text \<open>
  A successful \<^verbatim>\<open>del\<close> loop removes exactly the listed names; its only exception is the
  \<^verbatim>\<open>KeyError\<close> of a listed name that the record does not hold.
\<close>

lemma drop_fields_Inr:
  "drop_fields ns x = Inr x' \<Longrightarrow> map_of x' k = (if k \<in> set ns then None else map_of x k)"
proof (induction ns arbitrary: x)
  case Nil
  then show ?case by simp
next
  case (Cons i ns)
  from Cons.prems have d: "map_of x i \<noteq> None" and r: "drop_fields ns (AList.delete i x) = Inr x'"
    by (auto split: sum.splits)
  show ?case using Cons.IH [OF r] by (auto simp: delete_conv')
qed


lemma drop_fields_absent:
  "i \<in> set ns \<Longrightarrow> map_of x i = None \<Longrightarrow> \<exists>k. drop_fields ns x = Inl (KeyError k)"
proof (induction ns arbitrary: x)
  case Nil
  then show ?case by simp
next
  case (Cons j ns)
  show ?case
  proof (cases "map_of x j")
    case None
    then show ?thesis by (simp add: delitem_def)
  next
    case (Some v)
    from Some Cons.prems have "i \<noteq> j" by auto
    with Cons.prems have "i \<in> set ns" "map_of (AList.delete j x) i = None"
      by (auto simp: delete_conv')
    from Cons.IH [OF this] Some show ?thesis by (simp add: delitem_def)
  qed
qed

text \<open>The date-parsing loop is the converter loop with \<^verbatim>\<open>strptime\<close> as every converter.\<close>

lemma parse_date_fields_convert:
  "parse_date_fields lib ps x =
   convert_fields (map (\<lambda>(i, fmt). (i, \<lambda>v. datetime_strptime lib v fmt)) ps) x"
  by (induction ps arbitrary: x) (auto split: sum.splits)

text \<open>
  A successful converter loop leaves every field outside the table alone and replaces each
  listed field by its converter's result. A listed field that the record does not hold stops
  the loop, with \<^verbatim>\<open>KeyError\<close> unless a converter of an earlier field raised first.
\<close>

lemma convert_fields_other:
  "convert_fields cs x = Inr x' \<Longrightarrow> k \<notin> fst ` set cs \<Longrightarrow> map_of x' k = map_of x k"
proof (induction cs arbitrary: x)
  case Nil
  then show ?case by simp
next
  case (Cons a cs)
  obtain i t where a: "a = (i, t)" by (cases a)
  from Cons.prems a obtain v w where
    "map_of x i = Some v" "t v = Inr w" and r: "convert_fields cs (setitem x i w) = Inr x'"
    by (auto split: sum.splits)
  from Cons.prems a have "k \<noteq> i" "k \<notin> fst ` set cs" by auto
  with Cons.IH [OF r] show ?case by simp
qed

lemma convert_fields_key:
  "convert_fields cs x = Inr x' \<Longrightarrow> distinct (map fst cs) \<Longrightarrow> (k, c) \<in> set cs \<Longrightarrow>
   \<exists>v w. map_of x k = Some v \<and> c v = Inr w \<and> map_of x' k = Some w"
proof (induction cs arbitrary: x)
  case Nil
  then show ?case by simp
next
  case (Cons a cs)
  obtain i t where a: "a = (i, t)" by (cases a)
  from Cons.prems a obtain v w where
    g: "map_of x i = Some v" "t v = Inr w" and r: "convert_fields cs (setitem x i w) = Inr x'"
    by (auto split: sum.splits)
  from Cons.prems a have d: "distinct (map fst cs)" "i \<notin> fst ` set cs" by auto
  show ?case
  proof (cases "(k, c) \<in> set cs")
    case True
    with d have "k \<noteq> i" by force
    with Cons.IH [OF r d(1) True] show ?thesis by simp
  next
    case False
    with Cons.prems a have e: "k = i" "c = t" by auto
    from convert_fields_other [OF r d(2)] have "map_of x' i = Some w" by simp
    with g e show ?thesis by simp
  qed
qed

lemma convert_fields_absent:
  "n \<in> fst ` set cs \<Longrightarrow> map_of x n = None \<Longrightarrow>
   \<exists>e. convert_fields cs x = Inl e \<and>
       ((\<exists>k. e = KeyError k) \<or> (\<exists>i t v. (i, t) \<in> set cs \<and> i \<noteq> n \<and> t v = Inl e))"
proof (induction cs arbitrary: x)
  case Nil
  then show ?case by simp
next
  case (Cons a cs)
  obtain j u where a: "a = (j, u)" by (cases a)
  show ?case
  proof (cases "map_of x j")
    case None
    then have "convert_fields (a # cs) x = Inl (KeyError j)"
      by (simp add: a getitem_def)
    then show ?thesis by blast
  next
    case (Some v)
    with Cons.prems have jn: "j \<noteq> n" by auto
    show ?thesis
    proof (cases "u v")
      case (Inl e)
      with Some have "convert_fields (a # cs) x = Inl e" by (simp add: a getitem_def)
      moreover have "(j, u) \<in> set (a # cs)" by (simp add: a)
      ultimately show ?thesis using jn Inl by blast
    next
      case (Inr w)
      with Some have s: "convert_fields (a # cs) x = convert_fields cs (setitem x j w)"
        by (simp add: a getitem_def)
      from Cons.prems a jn have "n \<in> fst ` set cs" "map_of (setitem x j w) n = None"
        by auto
      from Cons.IH [OF this] obtain e where
        e: "convert_fields cs (setitem x j w) = Inl e"
           "(\<exists>k. e = KeyError k) \<or> (\<exists>i t v. (i, t) \<in> set cs \<and> i \<noteq> n \<and> t v = Inl e)"
        by blast
      from e(2) have "(\<exists>k. e = KeyError k) \<or> (\<exists>i t v. (i, t) \<in> set (a # cs) \<and> i \<noteq> n \<and> t v = Inl e)"
        by auto
      with s e(1) show ?thesis by simp
    qed
  qed
qed

lemma convert_fields_raises:
  "(i, t) \<in> set cs \<Longrightarrow> distinct (map fst cs) \<Longrightarrow> map_of x i = Some v \<Longrightarrow> t v = Inl e \<Longrightarrow>
   \<exists>e'. convert_fields cs x = Inl e'"
proof (cases "convert_fields cs x")
  case (Inl e')
  then show ?thesis by blast
next
  case (Inr x')
  assume "(i, t) \<in> set cs" "distinct (map fst cs)" "map_of x i = Some v" "t v = Inl e"
  with convert_fields_key [OF Inr, of i t] show ?thesis by auto
qed


lemma loop_body_Inl:
  "loop_body lib p x = Inl e \<longleftrightarrow>
   (drop_stage p x = Inl e \<or>
    (\<exists>x1. drop_stage p x = Inr x1 \<and>
       (convert_stage p x1 = Inl e \<or>
        (\<exists>x2. convert_stage p x1 = Inr x2 \<and> parse_stage lib p x2 = Inl e))))"
  by (auto simp: loop_body_def split: sum.splits)

section \<open>The target split\<close>





lemma parse_table_distinct:
  "map fst (map (\<lambda>(i, fmt). (i, \<lambda>v. datetime_strptime lib v fmt)) ps) = map fst ps"
  by (induction ps) auto


lemma parse_date_fields_key:
  assumes "parse_date_fields lib ps x = Inr x'" "distinct (map fst ps)" "(k, fmt) \<in> set ps"
  shows "\<exists>v w. map_of x k = Some v \<and> datetime_strptime lib v fmt = Inr w \<and> map_of x' k = Some w"
proof -
  let ?cs = "map (\<lambda>(i, fmt). (i, \<lambda>v. datetime_strptime lib v fmt)) ps"
  have 1: "convert_fields ?cs x = Inr x'" using assms(1) by (simp only: parse_date_fields_convert)
  have 2: "distinct (map fst ?cs)" using assms(2) by (simp only: parse_table_distinct)
  have 3: "(k, \<lambda>v. datetime_strptime lib v fmt) \<in> set ?cs" using assms(3) by force
  from convert_fields_key [OF 1 2 3] show ?thesis .
qed



lemma drop_stage_Inr:
  "drop_stage p x = Inr x1 \<Longrightarrow> map_of x1 k = Some v \<Longrightarrow> map_of x k = Some v"
  by (auto simp: drop_stage_def dest!: drop_fields_Inr [where k = k]
      split: option.splits if_splits)

text \<open>The three ways one turn of the \<^verbatim>\<open>for\<close> loop can go.\<close>

lemma iter_loop_raise:
  "DictReader_next rd = (Inr x, rd') \<Longrightarrow> loop_body lib p x = Inl e \<Longrightarrow>
   iter_loop lib p rd = ([], Raised e, rd')"
  by (subst iter_loop.simps) simp

lemma iter_loop_yield:
  "DictReader_next rd = (Inr x, rd') \<Longrightarrow> loop_body lib p x = Inr xy \<Longrightarrow>
   iter_loop lib p rd =
     (xy # fst (iter_loop lib p rd'), fst (snd (iter_loop lib p rd')),
      snd (snd (iter_loop lib p rd')))"
  by (subst iter_loop.simps) (simp split: prod.splits)

lemma iter_loop_stop:
  fixes lib :: "'a library"
  assumes "DictReader_next rd = (Inl e :: error + 'a pydict, rd')"
  shows "iter_loop lib p rd = ([], if e = StopIteration then Exhausted else Raised e, rd')"
  by (subst iter_loop.simps, subst assms) simp

section \<open>The order of the stages\<close>











section \<open>The records of the sampling reader\<close>

text \<open>
  Iterating the reader until it raises, as \<^verbatim>\<open>list(reader)\<close> or a \<^verbatim>\<open>for\<close> loop does: the records
  it returns in order, the exception that ends the iteration, and the state it leaves.
\<close>

function read_all :: "DictReader \<Rightarrow> 'a pydict list \<times> error \<times> DictReader" where
  "read_all rd =
     (case DictReader_next rd of
        (Inl e, rd') \<Rightarrow> ([], e, rd')
      | (Inr x, rd') \<Rightarrow> (case read_all rd' of (xs, e, rd'') \<Rightarrow> (x # xs, e, rd'')))"
  by pat_completeness auto
termination
proof (relation "measure (\<lambda>rd. length (reader rd))")
  show "wf (measure (\<lambda>rd. length (reader rd)))" by simp
next
  fix rd x rd' and b :: "'a pydict"
  assume "(x, rd') = DictReader_next rd" "x = Inr b"
  then have "DictReader_next rd = (Inr b, rd')" by simp
  then have "length (reader rd') < length (reader rd)"
    by (rule DictReader_next_reader_less)
  then show "(rd', rd) \<in> measure (\<lambda>rd. length (reader rd))"
    by simp
qed

declare read_all.simps [simp del]

lemma read_all_stop:
  assumes "DictReader_next rd = (Inl e :: error + 'a pydict, rd')"
  shows "read_all rd = ([] :: 'a pydict list, e, rd')"
  by (subst read_all.simps, subst assms) simp

lemma read_all_step:
  assumes "DictReader_next rd = (Inr x, rd')" and "read_all rd' = (xs, e, rd'')"
  shows "read_all rd = (x # xs, e, rd'')"
  by (subst read_all.simps, subst assms(1)) (simp add: assms(2))

lemma read_all_Cons:
  assumes "read_all rd = (x # xs, e, rdf)"
  shows "\<exists>rd'. DictReader_next rd = (Inr x, rd') \<and> read_all rd' = (xs, e, rdf)"
proof -
  obtain res rd' where n: "DictReader_next rd = (res :: error + 'a pydict, rd')"
    by (cases "DictReader_next rd :: (error + 'a pydict) \<times> DictReader") auto
  show ?thesis
  proof (cases res)
    case (Inl e')
    with n have "read_all rd = ([] :: 'a pydict list, e', rd')" by (simp add: read_all_stop)
    with assms show ?thesis by simp
  next
    case (Inr x')
    obtain xs' e' rd'' where r: "read_all rd' = (xs' :: 'a pydict list, e', rd'')"
      by (cases "read_all rd' :: 'a pydict list \<times> error \<times> DictReader") auto
    from n Inr have "DictReader_next rd = (Inr x', rd')" by simp
    from read_all_step [OF this r] assms n Inr r show ?thesis by simp
  qed
qed

lemma read_all_Nil:
  assumes "read_all rd = ([] :: 'a pydict list, e, rdf)"
  shows "DictReader_next rd = (Inl e :: error + 'a pydict, rdf)"
proof -
  obtain res rd' where n: "DictReader_next rd = (res :: error + 'a pydict, rd')"
    by (cases "DictReader_next rd :: (error + 'a pydict) \<times> DictReader") auto
  show ?thesis
  proof (cases res)
    case (Inl e')
    with n have "read_all rd = ([] :: 'a pydict list, e', rd')" by (simp add: read_all_stop)
    with assms n Inl show ?thesis by simp
  next
    case (Inr x')
    obtain xs' e' rd'' where r: "read_all rd' = (xs' :: 'a pydict list, e', rd'')"
      by (cases "read_all rd' :: 'a pydict list \<times> error \<times> DictReader") auto
    from n Inr have "DictReader_next rd = (Inr x', rd')" by simp
    from read_all_step [OF this r] assms show ?thesis by simp
  qed
qed

text \<open>
  The loop of \<^verbatim>\<open>iter_csv\<close> over the records of the reader: it yields the pairs of the records
  before the first one on which the loop body raises, and ends with that exception; when the
  loop body raises on none, it yields a pair for each and ends as the reader does.
\<close>

lemma iter_loop_aborts:
  assumes "read_all rd = (pre @ x # post, e0, rdf)"
    and "\<forall>r \<in> set pre. \<exists>xy. loop_body lib p r = Inr xy"
    and "loop_body lib p x = Inl e"
  shows "fst (iter_loop lib p rd) = map (\<lambda>r. projr (loop_body lib p r)) pre \<and>
         fst (snd (iter_loop lib p rd)) = Raised e"
  using assms(1,2)
proof (induction pre arbitrary: rd)
  case Nil
  then obtain rd' where "DictReader_next rd = (Inr x, rd')"
    using read_all_Cons [of rd x post e0 rdf] by auto
  from iter_loop_raise [OF this assms(3)] show ?case by simp
next
  case (Cons r pre)
  then obtain rd' where n: "DictReader_next rd = (Inr r, rd')"
    and r: "read_all rd' = (pre @ x # post, e0, rdf)"
    using read_all_Cons [of rd r "pre @ x # post" e0 rdf] by auto
  from Cons.prems(2) obtain xy where xy: "loop_body lib p r = Inr xy" by auto
  from Cons.prems(2) have "\<forall>r \<in> set pre. \<exists>xy. loop_body lib p r = Inr xy" by simp
  from Cons.IH [OF r this] iter_loop_yield [OF n xy] xy show ?case by simp
qed

lemma iter_loop_completes:
  assumes "read_all rd = (xs, e0, rdf)"
    and "\<forall>r \<in> set xs. \<exists>xy. loop_body lib p r = Inr xy"
  shows "iter_loop lib p rd =
           (map (\<lambda>r. projr (loop_body lib p r)) xs,
            if e0 = StopIteration then Exhausted else Raised e0, rdf)"
  using assms
proof (induction xs arbitrary: rd)
  case Nil
  from read_all_Nil [OF Nil.prems(1)] show ?case by (simp add: iter_loop_stop)
next
  case (Cons r rs)
  from read_all_Cons [OF Cons.prems(1)] obtain rd' where n: "DictReader_next rd = (Inr r, rd')"
    and r: "read_all rd' = (rs, e0, rdf)" by blast
  from Cons.prems(2) obtain xy where xy: "loop_body lib p r = Inr xy" by auto
  from Cons.prems(2) have "\<forall>r \<in> set rs. \<exists>xy. loop_body lib p r = Inr xy" by simp
  from Cons.IH [OF r this] iter_loop_yield [OF n xy] xy show ?case by simp
qed

section \<open>Failures of the loop body\<close>

text \<open>
  A session over an open buffer, or over a path that could be opened, yields what the loop
  yields over the rows of the stream and ends as the loop ends.
\<close>

lemma iter_csv_opened:
  assumes "src = Buffer rows \<or>
           (\<exists>path. src = Filepath path \<and> open_filepath lib path (p_compression p) = Inr rows)"
  shows "yielded (iter_csv lib p src st) =
     fst (iter_loop lib p (DictReader_init (p_fraction p) (random_Random lib st (p_seed p)) rows)) \<and>
   outcome (iter_csv lib p src st) =
     fst (snd (iter_loop lib p
       (DictReader_init (p_fraction p) (random_Random lib st (p_seed p)) rows)))"
proof -
  obtain ys out rd where r: "iter_loop lib p
      (DictReader_init (p_fraction p) (random_Random lib st (p_seed p)) rows) = (ys, out, rd)"
    by (rule prod_cases3)
  from assms have "(case src of Buffer rows \<Rightarrow> Inr rows
      | Filepath path \<Rightarrow> open_filepath lib path (p_compression p)) = Inr rows"
    by auto
  with r show ?thesis by (cases out) (simp_all add: iter_csv_def Let_def)
qed

text \<open>
  Each of the three causes makes the loop body raise: a name of the drop list that the record
  does not hold, a converter that raises on the value of its field, a date parse that raises
  on the value its field holds after conversion. The tables are dictionaries, so their keys
  are distinct.
\<close>

lemma parse_date_fields_raises:
  assumes "(i, fmt) \<in> set ps" "distinct (map fst ps)" "map_of x i = Some v"
    "datetime_strptime lib v fmt = Inl e"
  shows "\<exists>e'. parse_date_fields lib ps x = Inl e'"
proof (cases "parse_date_fields lib ps x")
  case (Inl e')
  then show ?thesis by blast
next
  case (Inr x')
  from parse_date_fields_key [OF Inr assms(2,1)] assms(3,4) show ?thesis by auto
qed

lemma loop_body_fails:
  assumes dc: "\<forall>cs. p_converters p = Some cs \<longrightarrow> distinct (map fst cs)"
    and dp: "\<forall>ps. p_parse_dates p = Some ps \<longrightarrow> distinct (map fst ps)"
    and cause:
      "(\<exists>ns n. p_drop p = Some ns \<and> n \<in> set ns \<and> map_of x n = None) \<or>
       (\<exists>cs i t v e'. p_converters p = Some cs \<and> (i, t) \<in> set cs \<and>
            map_of x i = Some v \<and> t v = Inl e') \<or>
       (\<exists>ps i fmt x1 x2 v e'. p_parse_dates p = Some ps \<and> (i, fmt) \<in> set ps \<and>
            drop_stage p x = Inr x1 \<and> convert_stage p x1 = Inr x2 \<and>
            map_of x2 i = Some v \<and> datetime_strptime lib v fmt = Inl e')"
  shows "\<exists>e. loop_body lib p x = Inl e"
proof -
  consider
    (a) ns n where "p_drop p = Some ns" "n \<in> set ns" "map_of x n = None"
  | (b) cs i t v e' where "p_converters p = Some cs" "(i, t) \<in> set cs"
        "map_of x i = Some v" "t v = Inl e'"
  | (c) ps i fmt x1 x2 v e' where "p_parse_dates p = Some ps" "(i, fmt) \<in> set ps"
        "drop_stage p x = Inr x1" "convert_stage p x1 = Inr x2"
        "map_of x2 i = Some v" "datetime_strptime lib v fmt = Inl e'"
    using cause by blast
  then show ?thesis
  proof cases
    case a
    from a(2) have "ns \<noteq> []" by auto
    with a(1) have "drop_stage p x = drop_fields ns x" by (simp add: drop_stage_def)
    with drop_fields_absent [OF a(2,3)] show ?thesis by (auto simp: loop_body_def)
  next
    case b
    from b(1) dc have d: "distinct (map fst cs)" by simp
    show ?thesis
    proof (cases "drop_stage p x")
      case (Inl e)
      then show ?thesis by (simp add: loop_body_def)
    next
      case (Inr x1)
      have "\<exists>e. convert_fields cs x1 = Inl e"
      proof (cases "map_of x1 i")
        case None
        from b(2) have "i \<in> fst ` set cs" by force
        from convert_fields_absent [OF this None] show ?thesis by blast
      next
        case (Some v')
        from drop_stage_Inr [OF Inr Some] b(3) have "v' = v" by simp
        with Some convert_fields_raises [OF b(2) d _ b(4)] show ?thesis by simp
      qed
      with Inr b(1) show ?thesis by (auto simp: loop_body_def convert_stage_def)
    qed
  next
    case c
    from c(1) dp have d: "distinct (map fst ps)" by simp
    from parse_date_fields_raises [OF c(2) d c(5,6)] c(1,3,4) show ?thesis
      by (auto simp: loop_body_def parse_stage_def)
  qed
qed

text \<open>A date format for the year, and three rows of which the second holds another year.\<close>

definition dated_params :: "unit params" where
  "dated_params = ex_params\<lparr>p_parse_dates := Some [(''year'', ''%Y'')]\<rparr>"

definition three_shows :: "string list list" where
  "three_shows = [[''name'', ''year''], [''Buffy'', ''2016''], [''Angel'', ''1999''],
                  [''Firefly'', ''2016'']]"

text \<open>
  Claim C7. Let \<^verbatim>\<open>x\<close> be a record the reader returns during a session, after the records
  \<^verbatim>\<open>pre\<close>, and let one of the three causes hold for \<^verbatim>\<open>x\<close>. Then the session ends with an
  exception, which reaches the caller as the outcome of the session. The pairs yielded are
  the results of the loop body on a prefix of \<^verbatim>\<open>pre\<close>, each unchanged by the failure; nothing is
  yielded for \<^verbatim>\<open>x\<close> or for any record after it. When the loop body succeeds on every record of
  \<^verbatim>\<open>pre\<close>, the pairs are those of all of \<^verbatim>\<open>pre\<close> and the exception is the one raised on \<^verbatim>\<open>x\<close>.
\<close>

theorem C7_failure_aborts:
  assumes "src = Buffer rows \<or>
           (\<exists>path. src = Filepath path \<and> open_filepath lib path (p_compression p) = Inr rows)"
    and "read_all (DictReader_init (p_fraction p) (random_Random lib st (p_seed p)) rows)
             = (pre @ x # post, e0, rdf)"
    and "\<forall>cs. p_converters p = Some cs \<longrightarrow> distinct (map fst cs)"
    and "\<forall>ps. p_parse_dates p = Some ps \<longrightarrow> distinct (map fst ps)"
    and "(\<exists>ns n. p_drop p = Some ns \<and> n \<in> set ns \<and> map_of x n = None) \<or>
         (\<exists>cs i t v e'. p_converters p = Some cs \<and> (i, t) \<in> set cs \<and>
            map_of x i = Some v \<and> t v = Inl e') \<or>
         (\<exists>ps i fmt x1 x2 v e'. p_parse_dates p = Some ps \<and> (i, fmt) \<in> set ps \<and>
            drop_stage p x = Inr x1 \<and> convert_stage p x1 = Inr x2 \<and>
            map_of x2 i = Some v \<and> datetime_strptime lib v fmt = Inl e')"
  shows "\<exists>e pre'. prefix pre' pre \<and>
           yielded (iter_csv lib p src st) = map (\<lambda>r. projr (loop_body lib p r)) pre' \<and>
           (\<forall>r \<in> set pre'. \<exists>xy. loop_body lib p r = Inr xy) \<and>
           outcome (iter_csv lib p src st) = Raised e \<and>
           ((\<forall>r \<in> set pre. \<exists>xy. loop_body lib p r = Inr xy)
              \<longrightarrow> pre' = pre \<and> loop_body lib p x = Inl e)"
proof -
  let ?rd = "DictReader_init (p_fraction p) (random_Random lib st (p_seed p)) rows"
  let ?ok = "\<lambda>r. \<exists>xy. loop_body lib p r = Inr xy"
  let ?f = "\<lambda>r. projr (loop_body lib p r)"
  from loop_body_fails [OF assms(3,4,5)] obtain e where e: "loop_body lib p x = Inl e" by blast
  have "\<exists>e' pre'. prefix pre' pre \<and> fst (iter_loop lib p ?rd) = map ?f pre' \<and>
          (\<forall>r \<in> set pre'. ?ok r) \<and>
          fst (snd (iter_loop lib p ?rd)) = Raised e' \<and>
          ((\<forall>r \<in> set pre. ?ok r) \<longrightarrow> pre' = pre \<and> loop_body lib p x = Inl e')"
  proof (cases "\<forall>r \<in> set pre. ?ok r")
    case True
    from iter_loop_aborts [OF assms(2) True e] True e show ?thesis by blast
  next
    case False
    define pre' where "pre' = takeWhile ?ok pre"
    define rest where "rest = dropWhile ?ok pre"
    from False have "rest \<noteq> []" by (auto simp: rest_def)
    then obtain r rest' where rest: "rest = r # rest'" by (cases rest) auto
    have "\<not> ?ok r" using hd_dropWhile [of ?ok pre] \<open>rest \<noteq> []\<close> rest by (simp add: rest_def)
    then obtain e' where e': "loop_body lib p r = Inl e'" by (cases "loop_body lib p r") auto
    have "pre = pre' @ rest" unfolding pre'_def rest_def by (rule takeWhile_dropWhile_id [symmetric])
    with rest have pre: "pre = pre' @ r # rest'" by simp
    have ok: "\<forall>r \<in> set pre'. ?ok r" by (auto simp: pre'_def dest: set_takeWhileD)
    have "read_all ?rd = (pre' @ r # (rest' @ x # post), e0, rdf)"
      using assms(2) pre by simp
    from iter_loop_aborts [OF this ok e']
    have A: "fst (iter_loop lib p ?rd) = map ?f pre'" "fst (snd (iter_loop lib p ?rd)) = Raised e'"
      by simp_all
    have B: "prefix pre' pre" by (simp add: pre'_def takeWhile_is_prefix)
    from A B ok False have "prefix pre' pre \<and> fst (iter_loop lib p ?rd) = map ?f pre' \<and>
          (\<forall>r \<in> set pre'. ?ok r) \<and>
          fst (snd (iter_loop lib p ?rd)) = Raised e' \<and>
          ((\<forall>r \<in> set pre. ?ok r) \<longrightarrow> pre' = pre \<and> loop_body lib p x = Inl e')"
      by blast
    then show ?thesis by blast
  qed
  then show ?thesis by (simp add: iter_csv_opened [OF assms(1)])
qed

theorem C7_failure_aborts_witness:
  "yielded (iter_csv ex_lib dated_params (Buffer three_shows) ex_state) =
     [([(''name'', PyStr ''Buffy''), (''year'', PyObj ())], PyNone)] \<and>
   outcome (iter_csv ex_lib dated_params (Buffer three_shows) ex_state) =
     Raised (ValueError ''1999'')"
proof -
  let ?x1 = "[(''name'', PyStr ''Buffy''), (''year'', PyStr ''2016'')] :: unit pydict"
  let ?x2 = "[(''name'', PyStr ''Angel''), (''year'', PyStr ''1999'')] :: unit pydict"
  let ?x3 = "[(''name'', PyStr ''Firefly''), (''year'', PyStr ''2016'')] :: unit pydict"
  let ?rdf = "\<lparr>fraction = 1, rng = (\<lambda>n. 0), rng_calls = 0, reader = [], reader_line_num = 4,
     fieldnames_cache = Some [''name'', ''year''], line_num = 4\<rparr>"
  have 0: "Buffer three_shows = Buffer three_shows \<or>
           (\<exists>path. Buffer three_shows = Filepath path \<and>
              open_filepath ex_lib path (p_compression dated_params) = Inr three_shows)"
    by simp
  have 1: "read_all (DictReader_init (p_fraction dated_params)
             (random_Random ex_lib ex_state (p_seed dated_params)) three_shows)
           = ([?x1] @ ?x2 # [?x3], StopIteration, ?rdf)"
    by (simp add: eval_defs read_all.simps dated_params_def three_shows_def)
  have 2: "\<forall>cs. p_converters dated_params = Some cs \<longrightarrow> distinct (map fst cs)"
    and 3: "\<forall>ps. p_parse_dates dated_params = Some ps \<longrightarrow> distinct (map fst ps)"
    by (simp_all add: dated_params_def ex_params_def)
  have "p_parse_dates dated_params = Some [(''year'', ''%Y'')] \<and>
        (''year'', ''%Y'') \<in> set [(''year'', ''%Y'')] \<and>
        drop_stage dated_params ?x2 = Inr ?x2 \<and> convert_stage dated_params ?x2 = Inr ?x2 \<and>
        map_of ?x2 ''year'' = Some (PyStr ''1999'') \<and>
        datetime_strptime ex_lib (PyStr ''1999'') ''%Y'' = Inl (ValueError ''1999'')"
    by (simp add: eval_defs dated_params_def)
  then have 4: "(\<exists>ns n. p_drop dated_params = Some ns \<and> n \<in> set ns \<and> map_of ?x2 n = None) \<or>
         (\<exists>cs i t v e'. p_converters dated_params = Some cs \<and> (i, t) \<in> set cs \<and>
            map_of ?x2 i = Some v \<and> t v = Inl e') \<or>
         (\<exists>ps i fmt x1 x2 v e'. p_parse_dates dated_params = Some ps \<and> (i, fmt) \<in> set ps \<and>
            drop_stage dated_params ?x2 = Inr x1 \<and> convert_stage dated_params x1 = Inr x2 \<and>
            map_of x2 i = Some v \<and> datetime_strptime ex_lib v fmt = Inl e')"
    by blast
  have 5: "loop_body ex_lib dated_params ?x1 = Inr ([(''name'', PyStr ''Buffy''), (''year'', PyObj ())], PyNone)"
    and 6: "loop_body ex_lib dated_params ?x2 = Inl (ValueError ''1999'')"
    by (simp_all add: eval_defs dated_params_def)
  from C7_failure_aborts [OF 0 1 2 3 4] obtain e pre' where
    r: "yielded (iter_csv ex_lib dated_params (Buffer three_shows) ex_state) =
          map (\<lambda>r. projr (loop_body ex_lib dated_params r)) pre'"
       "outcome (iter_csv ex_lib dated_params (Buffer three_shows) ex_state) = Raised e"
       "(\<forall>r \<in> set [?x1]. \<exists>xy. loop_body ex_lib dated_params r = Inr xy)
              \<longrightarrow> pre' = [?x1] \<and> loop_body ex_lib dated_params ?x2 = Inl e"
    by blast
  from r(3) 5 6 have "pre' = [?x1]" "e = ValueError ''1999''" by simp_all
  with r(1,2) 5 show ?thesis by simp
qed

end
